theory Spec2Isabelle
  imports Main
begin

section \<open>The Redis store\<close>

text \<open>
  The pipeline keeps all of its shared state in one Redis server, reached through the
  \<^verbatim>\<open>redis\<close> client library. The store below holds what the commands used in
  \<^verbatim>\<open>redis_utils.py\<close> read and write: lists, hashes, integer-valued strings, the
  expiry deadline of a key, the messages published so far, and the server's clock in whole
  seconds. A list is written with its left end (the head, where LPUSH inserts) first.
  A hash is the list of its fields with their values, in the order the fields were created.
  A missing list is the empty list, a missing hash is the hash without fields.

  Queue entries are the job dictionaries themselves: \<^verbatim>\<open>json.loads (json.dumps job)\<close>
  gives the job back for the JSON dictionaries the pipeline handles, so the serialised text
  is not modelled. Redis integers are taken as unbounded.

  Every call of a method of \<^verbatim>\<open>redis_utils.py\<close> happens at one instant: the clock
  moves only through \<open>advance\<close>, and through a blocking pop that waits out its timeout.
\<close>

type_synonym key = string

record message =
  event :: string
  count :: int
  timestamp :: int

record 'j redis =
  clock :: int
  list_keys :: "key \<Rightarrow> 'j list"
  hash_keys :: "key \<Rightarrow> (string \<times> string) list"
  string_keys :: "key \<rightharpoonup> int"
  deadline :: "key \<rightharpoonup> int"
  published :: "(string \<times> message) list"

definition empty_redis :: "'j redis" where
  "empty_redis =
     \<lparr>clock = 0, list_keys = (\<lambda>k. []), hash_keys = (\<lambda>k. []),
      string_keys = Map.empty, deadline = Map.empty, published = []\<rparr>"

definition key_exists :: "key \<Rightarrow> 'j redis \<Rightarrow> bool" where
  "key_exists k s =
     (list_keys s k \<noteq> [] \<or> hash_keys s k \<noteq> [] \<or> string_keys s k \<noteq> None)"

definition redis_del :: "key \<Rightarrow> 'j redis \<Rightarrow> 'j redis" where
  "redis_del k s =
     s\<lparr>list_keys := (list_keys s)(k := []),
       hash_keys := (hash_keys s)(k := []),
       string_keys := (string_keys s)(k := None),
       deadline := (deadline s)(k := None)\<rparr>"

definition expired :: "'j redis \<Rightarrow> key \<Rightarrow> bool" where
  "expired s k = (case deadline s k of None \<Rightarrow> False | Some t \<Rightarrow> t \<le> clock s)"

definition purge :: "'j redis \<Rightarrow> 'j redis" where
  "purge s =
     s\<lparr>list_keys := (\<lambda>k. if expired s k then [] else list_keys s k),
       hash_keys := (\<lambda>k. if expired s k then [] else hash_keys s k),
       string_keys := (\<lambda>k. if expired s k then None else string_keys s k),
       deadline := (\<lambda>k. if expired s k then None else deadline s k)\<rparr>"

text \<open>Time passing: \<open>d\<close> seconds later every key whose deadline has been reached is gone.\<close>

definition advance :: "nat \<Rightarrow> 'j redis \<Rightarrow> 'j redis" where
  "advance d s = purge (s\<lparr>clock := clock s + int d\<rparr>)"

text \<open>LPUSH inserts its arguments one after the other at the head of the list.\<close>

definition redis_lpush :: "key \<Rightarrow> 'j list \<Rightarrow> 'j redis \<Rightarrow> 'j redis" where
  "redis_lpush k vs s = s\<lparr>list_keys := (list_keys s)(k := rev vs @ list_keys s k)\<rparr>"

text \<open>
  BRPOP takes the element at the tail. On an empty list it waits: with a timeout of
  \<open>0\<close> it waits for ever (no result, \<open>None\<close>), otherwise it answers nil once the
  timeout has passed. A list that becomes empty is removed together with its deadline.
\<close>

definition redis_brpop :: "key \<Rightarrow> nat \<Rightarrow> 'j redis \<Rightarrow> ('j option \<times> 'j redis) option" where
  "redis_brpop k timeout s =
     (case list_keys s k of
        [] \<Rightarrow> if timeout = 0 then None else Some (None, advance timeout s)
      | x # xs \<Rightarrow>
          Some (Some (last (x # xs)),
                s\<lparr>list_keys := (list_keys s)(k := butlast (x # xs)),
                  deadline := (if xs = [] then (deadline s)(k := None) else deadline s)\<rparr>))"

definition redis_llen :: "key \<Rightarrow> 'j redis \<Rightarrow> int" where
  "redis_llen k s = int (length (list_keys s k))"

definition redis_get :: "key \<Rightarrow> 'j redis \<Rightarrow> int option" where
  "redis_get k s = string_keys s k"

definition redis_incrby :: "key \<Rightarrow> int \<Rightarrow> 'j redis \<Rightarrow> int \<times> 'j redis" where
  "redis_incrby k n s =
     (let v = (case string_keys s k of None \<Rightarrow> 0 | Some v \<Rightarrow> v) + n
      in (v, s\<lparr>string_keys := (string_keys s)(k \<mapsto> v)\<rparr>))"

definition redis_decrby :: "key \<Rightarrow> int \<Rightarrow> 'j redis \<Rightarrow> int \<times> 'j redis" where
  "redis_decrby k n s =
     (let v = (case string_keys s k of None \<Rightarrow> 0 | Some v \<Rightarrow> v) - n
      in (v, s\<lparr>string_keys := (string_keys s)(k \<mapsto> v)\<rparr>))"

definition redis_incr :: "key \<Rightarrow> 'j redis \<Rightarrow> int \<times> 'j redis" where
  "redis_incr k s = redis_incrby k 1 s"

definition redis_decr :: "key \<Rightarrow> 'j redis \<Rightarrow> int \<times> 'j redis" where
  "redis_decr k s = redis_decrby k 1 s"

text \<open>HSETNX writes the field only when the hash does not have it; it answers 1 or 0.\<close>

definition redis_hsetnx :: "key \<Rightarrow> string \<Rightarrow> string \<Rightarrow> 'j redis \<Rightarrow> int \<times> 'j redis" where
  "redis_hsetnx k f v s =
     (case map_of (hash_keys s k) f of
        None \<Rightarrow> (1, s\<lparr>hash_keys := (hash_keys s)(k := hash_keys s k @ [(f, v)])\<rparr>)
      | Some _ \<Rightarrow> (0, s))"

definition redis_hexists :: "key \<Rightarrow> string \<Rightarrow> 'j redis \<Rightarrow> bool" where
  "redis_hexists k f s = (map_of (hash_keys s k) f \<noteq> None)"

definition redis_hget :: "key \<Rightarrow> string \<Rightarrow> 'j redis \<Rightarrow> string option" where
  "redis_hget k f s = map_of (hash_keys s k) f"

definition redis_hkeys :: "key \<Rightarrow> 'j redis \<Rightarrow> string list" where
  "redis_hkeys k s = remdups (map fst (hash_keys s k))"

definition redis_hlen :: "key \<Rightarrow> 'j redis \<Rightarrow> int" where
  "redis_hlen k s = int (length (redis_hkeys k s))"

text \<open>
  EXPIRE on a missing key does nothing (answer 0). A timeout that is not positive
  deletes the key at once; otherwise the key's deadline becomes now + timeout.
\<close>

definition redis_expire :: "key \<Rightarrow> int \<Rightarrow> 'j redis \<Rightarrow> int \<times> 'j redis" where
  "redis_expire k ttl s =
     (if \<not> key_exists k s then (0, s)
      else if ttl \<le> 0 then (1, redis_del k s)
      else (1, s\<lparr>deadline := (deadline s)(k \<mapsto> clock s + ttl)\<rparr>))"

definition redis_publish :: "string \<Rightarrow> message \<Rightarrow> 'j redis \<Rightarrow> 'j redis" where
  "redis_publish channel m s = s\<lparr>published := published s @ [(channel, m)]\<rparr>"

text \<open>The decimal text the client sends for an integer argument.\<close>

function decimal_nat :: "nat \<Rightarrow> string" where
  "decimal_nat n =
     (if n < 10 then [''0123456789'' ! n]
      else decimal_nat (n div 10) @ [''0123456789'' ! (n mod 10)])"
  by pat_completeness auto
termination
  by (relation "measure id") auto

definition decimal :: "int \<Rightarrow> string" where
  "decimal i = (if i < 0 then CHR ''-'' # decimal_nat (nat (- i)) else decimal_nat (nat i))"

section \<open>RedisQueue\<close>

definition counter_key :: "string \<Rightarrow> key" where
  "counter_key queue_name = queue_name @ '':counter''"

definition push :: "string \<Rightarrow> 'j \<Rightarrow> 'j redis \<Rightarrow> 'j redis" where
  "push queue_name job_data s =
     (let s1 = redis_lpush queue_name [job_data] s
      in snd (redis_incr (counter_key queue_name) s1))"

definition push_batch :: "string \<Rightarrow> 'j list \<Rightarrow> 'j redis \<Rightarrow> 'j redis" where
  "push_batch queue_name jobs s =
     (if jobs = [] then s
      else
        let s1 = redis_lpush queue_name jobs s
        in snd (redis_incrby (counter_key queue_name) (int (length jobs)) s1))"

definition pop :: "string \<Rightarrow> nat \<Rightarrow> 'j redis \<Rightarrow> ('j option \<times> 'j redis) option" where
  "pop queue_name timeout s =
     (case redis_brpop queue_name timeout s of
        None \<Rightarrow> None
      | Some (None, s1) \<Rightarrow> Some (None, s1)
      | Some (Some job_data, s1) \<Rightarrow>
          Some (Some job_data, snd (redis_decr (counter_key queue_name) s1)))"

definition size_queue :: "string \<Rightarrow> 'j redis \<Rightarrow> int" where
  "size_queue queue_name s = redis_llen queue_name s"

definition counter :: "string \<Rightarrow> 'j redis \<Rightarrow> int" where
  "counter queue_name s =
     (case redis_get (counter_key queue_name) s of None \<Rightarrow> 0 | Some v \<Rightarrow> v)"

definition clear_queue :: "string \<Rightarrow> 'j redis \<Rightarrow> 'j redis" where
  "clear_queue queue_name s = redis_del (counter_key queue_name) (redis_del queue_name s)"

text \<open>
  Popping up to \<open>n\<close> times in a row, stopping at the first pop that comes back empty,
  and collecting the jobs in the order they were returned.
\<close>

fun pop_repeatedly ::
  "string \<Rightarrow> nat \<Rightarrow> nat \<Rightarrow> 'j redis \<Rightarrow> ('j list \<times> 'j redis) option" where
  "pop_repeatedly queue_name timeout 0 s = Some ([], s)"
| "pop_repeatedly queue_name timeout (Suc n) s =
     (case pop queue_name timeout s of
        None \<Rightarrow> None
      | Some (None, s1) \<Rightarrow> Some ([], s1)
      | Some (Some job, s1) \<Rightarrow>
          (case pop_repeatedly queue_name timeout n s1 of
             None \<Rightarrow> None
           | Some (jobs, s2) \<Rightarrow> Some (job # jobs, s2)))"

section \<open>RedisDeduplicator\<close>

text \<open>
  A deduplicator is built for a window name and a time to live in seconds. The value
  kept for a record id is the time stamp of the call that first stored it.
\<close>

definition is_duplicate :: "string \<Rightarrow> string \<Rightarrow> 'j redis \<Rightarrow> bool" where
  "is_duplicate window_name record_id s = redis_hexists window_name record_id s"

definition mark_seen :: "string \<Rightarrow> int \<Rightarrow> string \<Rightarrow> 'j redis \<Rightarrow> bool \<times> 'j redis" where
  "mark_seen window_name ttl_seconds record_id s =
     (let timestamp = clock s;
          (is_new, s1) = redis_hsetnx window_name record_id (decimal timestamp) s;
          s2 = (if redis_hlen window_name s1 = 1
                then snd (redis_expire window_name ttl_seconds s1) else s1)
      in (is_new \<noteq> 0, s2))"

text \<open>The commands queued on the pipeline by the loop of \<^verbatim>\<open>mark_batch\<close>, run in order.\<close>

fun hsetnx_each :: "key \<Rightarrow> string list \<Rightarrow> string \<Rightarrow> 'j redis \<Rightarrow> int list \<times> 'j redis" where
  "hsetnx_each k [] v s = ([], s)"
| "hsetnx_each k (f # fs) v s =
     (let (r, s1) = redis_hsetnx k f v s;
          (rs, s2) = hsetnx_each k fs v s1
      in (r # rs, s2))"

definition mark_batch :: "string \<Rightarrow> int \<Rightarrow> string list \<Rightarrow> 'j redis \<Rightarrow> int \<times> 'j redis" where
  "mark_batch window_name ttl_seconds record_ids s =
     (if record_ids = [] then (0, s)
      else
        let timestamp = clock s;
            (rs, s1) = hsetnx_each window_name record_ids (decimal timestamp) s;
            (r, s2) = redis_expire window_name ttl_seconds s1;
            results = rs @ [r]
        in (sum_list (butlast results), s2))"

definition count_seen :: "string \<Rightarrow> 'j redis \<Rightarrow> int" where
  "count_seen window_name s = redis_hlen window_name s"

definition clear_dedup :: "string \<Rightarrow> 'j redis \<Rightarrow> 'j redis" where
  "clear_dedup window_name s = redis_del window_name s"

section \<open>RedisBackpressure\<close>

definition backpressure_key :: "string \<Rightarrow> string \<Rightarrow> key" where
  "backpressure_key namespace queue_name = namespace @ '':'' @ queue_name"

definition increment :: "string \<Rightarrow> string \<Rightarrow> int \<Rightarrow> 'j redis \<Rightarrow> int \<times> 'j redis" where
  "increment namespace queue_name amount s =
     redis_incrby (backpressure_key namespace queue_name) amount s"

definition decrement :: "string \<Rightarrow> string \<Rightarrow> int \<Rightarrow> 'j redis \<Rightarrow> int \<times> 'j redis" where
  "decrement namespace queue_name amount s =
     redis_decrby (backpressure_key namespace queue_name) amount s"

definition get_depth :: "string \<Rightarrow> string \<Rightarrow> 'j redis \<Rightarrow> int" where
  "get_depth namespace queue_name s =
     (case redis_get (backpressure_key namespace queue_name) s of None \<Rightarrow> 0 | Some v \<Rightarrow> v)"

definition should_throttle :: "string \<Rightarrow> string \<Rightarrow> int \<Rightarrow> 'j redis \<Rightarrow> bool" where
  "should_throttle namespace queue_name max_depth s =
     (get_depth namespace queue_name s \<ge> max_depth)"

definition reset :: "string \<Rightarrow> string \<Rightarrow> 'j redis \<Rightarrow> 'j redis" where
  "reset namespace queue_name s = redis_del (backpressure_key namespace queue_name) s"

section \<open>RedisCache and RedisPubSub\<close>

text \<open>
  What \<^verbatim>\<open>process_batch\<close> observes of a value computed by a library call
  (\<^verbatim>\<open>json.loads\<close>, \<^verbatim>\<open>float\<close>): the call raised, or it returned a value that
  Python takes as false, or one that it takes as true. The two library functions are
  parameters of the model.
\<close>

datatype py_value = Raises | Falsy | Truthy

definition get :: "string \<Rightarrow> string \<Rightarrow> 'j redis \<Rightarrow> string option" where
  "get cache_name k s =
     (case redis_hget cache_name k s of
        None \<Rightarrow> None
      | Some v \<Rightarrow> if v = [] then None else Some v)"

definition get_json :: "(string \<Rightarrow> py_value) \<Rightarrow> string \<Rightarrow> string \<Rightarrow> 'j redis \<Rightarrow> py_value" where
  "get_json json_loads cache_name k s =
     (case get cache_name k s of None \<Rightarrow> Falsy | Some v \<Rightarrow> json_loads v)"

definition publish :: "string \<Rightarrow> message \<Rightarrow> 'j redis \<Rightarrow> 'j redis" where
  "publish channel m s = redis_publish channel m s"

section \<open>The relational store\<close>

record order =
  order_id :: string
  customer_id :: string
  product_id :: string
  quantity :: int
  unit_price :: string
  currency :: string
  zip_code :: string
  order_timestamp :: string
  raw_data :: "(string \<times> string) list"

text \<open>
  The staging table, the production table and the number of refreshes of the
  materialized views that have been committed. A staged row carries the fields of the
  order it was built from.
\<close>

record postgres =
  orders_staging :: "order list"
  orders_production :: "order list"
  view_refreshes :: nat

definition bulk_insert :: "order list \<Rightarrow> postgres \<Rightarrow> int \<times> postgres" where
  "bulk_insert df db =
     (int (length df), db\<lparr>orders_staging := orders_staging db @ df\<rparr>)"

definition count_staging :: "postgres \<Rightarrow> int" where
  "count_staging db = int (length (orders_staging db))"

text \<open>
  Modelled from the spec: the stored procedure \<^verbatim>\<open>promote_staging_to_production()\<close>
  is defined in the database schema, which is not among the sources. By the specification
  it moves all currently staged, validated rows to durable storage in one atomic step,
  clears the staging area of exactly those rows, and reports the number of rows moved.
  Which rows count as validated is the parameter \<open>valid\<close>. The answer is one row holding
  the count.
\<close>

definition promote_staging_to_production ::
  "(order \<Rightarrow> bool) \<Rightarrow> postgres \<Rightarrow> nat option \<times> postgres" where
  "promote_staging_to_production valid db =
     (let moved = filter valid (orders_staging db)
      in (Some (length moved),
          db\<lparr>orders_production := orders_production db @ moved,
             orders_staging := filter (\<lambda>r. \<not> valid r) (orders_staging db)\<rparr>))"

definition staging_promote :: "(order \<Rightarrow> bool) \<Rightarrow> postgres \<Rightarrow> int \<times> postgres" where
  "staging_promote valid db =
     (case promote_staging_to_production valid db of
        (None, db1) \<Rightarrow> (0, db1)
      | (Some inserted_count, db1) \<Rightarrow> (int inserted_count, db1))"

definition refresh_all :: "postgres \<Rightarrow> postgres" where
  "refresh_all db = db\<lparr>view_refreshes := Suc (view_refreshes db)\<rparr>"

section \<open>PipelineOrchestrator\<close>

record pipeline_config =
  worker_count :: int
  batch_size :: int
  dedup_window_seconds :: int
  max_queue_depth :: int

definition ingestion_queue :: string where
  "ingestion_queue = ''orders:ingestion''"

definition deduplicator :: string where
  "deduplicator = ''orders:dedup''"

definition lookup_cache :: string where
  "lookup_cache = ''lookups''"

definition backpressure :: string where
  "backpressure = ''backpressure''"

record ingest_stats =
  st_total :: int
  st_new :: int
  st_duplicates :: int
  st_queued :: int

text \<open>
  The loop of \<^verbatim>\<open>ingest_orders\<close> over the incoming orders; it carries the
  statistics, the list \<^verbatim>\<open>new_orders\<close> and the store.
\<close>

fun ingest_loop ::
  "int \<Rightarrow> order list \<Rightarrow> ingest_stats \<times> order list \<times> order redis \<Rightarrow>
   ingest_stats \<times> order list \<times> order redis" where
  "ingest_loop ttl [] acc = acc"
| "ingest_loop ttl (order # orders) (stats, new_orders, s) =
     (case mark_seen deduplicator ttl (order_id order) s of
        (True, s1) \<Rightarrow>
          ingest_loop ttl orders (stats\<lparr>st_new := st_new stats + 1\<rparr>, new_orders @ [order], s1)
      | (False, s1) \<Rightarrow>
          ingest_loop ttl orders
            (stats\<lparr>st_duplicates := st_duplicates stats + 1\<rparr>, new_orders, s1))"

definition ingest_orders ::
  "pipeline_config \<Rightarrow> order list \<Rightarrow> order redis \<Rightarrow> ingest_stats \<times> order redis" where
  "ingest_orders cfg orders s =
     (let stats = \<lparr>st_total = int (length orders), st_new = 0, st_duplicates = 0, st_queued = 0\<rparr>
      in if should_throttle backpressure ''ingestion'' (max_queue_depth cfg) s
         then (stats, s)
         else
           let (stats1, new_orders, s1) =
                 ingest_loop (dedup_window_seconds cfg) orders (stats, [], s)
           in if new_orders \<noteq> []
              then
                let s2 = push_batch ingestion_queue new_orders s1;
                    stats2 = stats1\<lparr>st_queued := int (length new_orders)\<rparr>;
                    s3 = snd (increment backpressure ''ingestion'' (int (length new_orders)) s2)
                in (stats2, s3)
              else (stats1, s1))"

record process_stats =
  st_processed :: int
  st_enriched :: int
  st_staged :: int
  st_errors :: int

text \<open>The loop that pulls the batch: at most \<open>n\<close> pops, each waiting one second.\<close>

fun drain ::
  "nat \<Rightarrow> order list \<times> process_stats \<times> order redis \<Rightarrow>
   (order list \<times> process_stats \<times> order redis) option" where
  "drain 0 acc = Some acc"
| "drain (Suc n) (orders_batch, stats, s) =
     (case pop ingestion_queue 1 s of
        None \<Rightarrow> None
      | Some (None, s1) \<Rightarrow> Some (orders_batch, stats, s1)
      | Some (Some order, s1) \<Rightarrow>
          drain n (orders_batch @ [order], stats\<lparr>st_processed := st_processed stats + 1\<rparr>, s1))"

text \<open>
  The body of the enrichment loop for one row. The three lookups are made in the
  source's order; an exception in any of them ends the row in the handler, a false value
  in any of them ends it at the \<^verbatim>\<open>all\<close> test. In both cases the row counts as an
  error and is left out, which is the result \<open>None\<close>.
\<close>

definition enrich_row ::
  "(string \<Rightarrow> py_value) \<Rightarrow> (string \<Rightarrow> py_value) \<Rightarrow> order redis \<Rightarrow> order \<Rightarrow> order option" where
  "enrich_row json_loads to_float s row =
     (case get_json json_loads lookup_cache (''product:'' @ product_id row) s of
        Raises \<Rightarrow> None
      | product_data \<Rightarrow>
         (case (case get lookup_cache (''currency:'' @ currency row) s of
                  None \<Rightarrow> Raises | Some v \<Rightarrow> to_float v) of
            Raises \<Rightarrow> None
          | currency_rate \<Rightarrow>
             (case get_json json_loads lookup_cache (''zipcode:'' @ zip_code row) s of
                Raises \<Rightarrow> None
              | zip_data \<Rightarrow>
                  if \<not> (product_data = Truthy \<and> currency_rate = Truthy \<and> zip_data = Truthy)
                  then None
                  else Some row)))"

fun enrich_loop ::
  "(string \<Rightarrow> py_value) \<Rightarrow> (string \<Rightarrow> py_value) \<Rightarrow> order redis \<Rightarrow> order list \<Rightarrow>
   order list \<times> process_stats \<Rightarrow> order list \<times> process_stats" where
  "enrich_loop json_loads to_float s [] acc = acc"
| "enrich_loop json_loads to_float s (row # rows) (enriched_rows, stats) =
     (case enrich_row json_loads to_float s row of
        None \<Rightarrow>
          enrich_loop json_loads to_float s rows
            (enriched_rows, stats\<lparr>st_errors := st_errors stats + 1\<rparr>)
      | Some enriched_row \<Rightarrow>
          enrich_loop json_loads to_float s rows
            (enriched_rows @ [enriched_row], stats\<lparr>st_enriched := st_enriched stats + 1\<rparr>))"

text \<open>
  What the two servers do while the batch is staged: the connection to Postgres cannot
  be opened, or the COPY into the staging table fails, or the COPY is committed and the
  publish on Redis fails, or all of it succeeds. Elsewhere the calls to the two servers
  are taken to succeed.
\<close>

datatype staging_env = Connect_fails | Copy_fails | Publish_fails | All_succeed

datatype exn = Connection_error

definition process_batch ::
  "(string \<Rightarrow> py_value) \<Rightarrow> (string \<Rightarrow> py_value) \<Rightarrow> staging_env \<Rightarrow> int \<Rightarrow>
   order redis \<times> postgres \<Rightarrow> ((exn + process_stats) \<times> order redis \<times> postgres) option" where
  "process_batch json_loads to_float env batch_sz w =
     (let stats = \<lparr>st_processed = 0, st_enriched = 0, st_staged = 0, st_errors = 0\<rparr>
      in case drain (nat batch_sz) ([], stats, fst w) of
        None \<Rightarrow> None
      | Some (orders_batch, stats1, s1) \<Rightarrow>
          Some
           (if orders_batch = [] then (Inr stats1, s1, snd w)
            else
              let s2 = snd (decrement backpressure ''ingestion'' (int (length orders_batch)) s1);
                  (enriched_rows, stats2) =
                     enrich_loop json_loads to_float s2 orders_batch ([], stats1)
              in if enriched_rows = [] then (Inr stats2, s2, snd w)
                 else
                   (case env of
                      Connect_fails \<Rightarrow> (Inl Connection_error, s2, snd w)
                    | Copy_fails \<Rightarrow>
                        (Inr (stats2\<lparr>st_errors := st_errors stats2 + int (length enriched_rows)\<rparr>),
                         s2, snd w)
                    | Publish_fails \<Rightarrow>
                        (let (n, db1) = bulk_insert enriched_rows (snd w);
                             stats3 = stats2\<lparr>st_staged := n\<rparr>
                         in (Inr (stats3\<lparr>st_errors := st_errors stats3 + int (length enriched_rows)\<rparr>),
                             s2, db1))
                    | All_succeed \<Rightarrow>
                        (let (n, db1) = bulk_insert enriched_rows (snd w);
                             stats3 = stats2\<lparr>st_staged := n\<rparr>;
                             s3 = publish ''pipeline:events''
                                    \<lparr>event = ''batch_staged'', count = n, timestamp = clock s2\<rparr> s2
                         in (Inr stats3, s3, db1)))))"

text \<open>
  The promotion runs in one transaction, which is committed by the refresh of the views.
  When nothing was promoted the connection is closed without a commit, which leaves the
  database as it was before the call.
\<close>

definition promote_to_production ::
  "(order \<Rightarrow> bool) \<Rightarrow> order redis \<times> postgres \<Rightarrow> int \<times> order redis \<times> postgres" where
  "promote_to_production valid w =
     (let (promoted_count, db1) = staging_promote valid (snd w)
      in if promoted_count > 0
         then
           let db2 = refresh_all db1;
               s1 = publish ''pipeline:events''
                      \<lparr>event = ''batch_promoted'', count = promoted_count,
                       timestamp = clock (fst w)\<rparr> (fst w)
           in (promoted_count, s1, db2)
         else (promoted_count, fst w, snd w))"

section \<open>Filling the lookup cache\<close>

text \<open>HSET creates the field or overwrites its value.\<close>

definition redis_hset :: "key \<Rightarrow> string \<Rightarrow> string \<Rightarrow> 'j redis \<Rightarrow> 'j redis" where
  "redis_hset k f v s =
     (case map_of (hash_keys s k) f of
        None \<Rightarrow> s\<lparr>hash_keys := (hash_keys s)(k := hash_keys s k @ [(f, v)])\<rparr>
      | Some _ \<Rightarrow>
          s\<lparr>hash_keys := (hash_keys s)
               (k := map (\<lambda>p. if fst p = f then (f, v) else p) (hash_keys s k))\<rparr>)"

definition set_cache :: "string \<Rightarrow> string \<Rightarrow> string \<Rightarrow> int option \<Rightarrow> 'j redis \<Rightarrow> 'j redis" where
  "set_cache cache_name k v ttl_seconds s =
     (let s1 = redis_hset cache_name k v s
      in case ttl_seconds of
           None \<Rightarrow> s1
         | Some ttl \<Rightarrow> if ttl = 0 then s1 else snd (redis_expire cache_name ttl s1))"

section \<open>Sample data\<close>

text \<open>A configuration, an order and some stores on which the results below are run.\<close>

definition sample_config :: pipeline_config where
  "sample_config =
     \<lparr>worker_count = 4, batch_size = 5000, dedup_window_seconds = 3600, max_queue_depth = 2\<rparr>"

definition sample_order :: order where
  "sample_order =
     \<lparr>order_id = ''ORD-1'', customer_id = ''CUST-1'', product_id = ''PROD-001'', quantity = 2,
      unit_price = ''29.99'', currency = ''USD'', zip_code = ''10001'',
      order_timestamp = ''2025-01-01T00:00:00'', raw_data = [(''session_id'', ''s1'')]\<rparr>"

definition full_store :: "order redis" where
  "full_store = snd (increment backpressure ''ingestion'' 2 empty_redis)"

definition empty_postgres :: postgres where
  "empty_postgres = \<lparr>orders_staging = [], orders_production = [], view_refreshes = 0\<rparr>"

text \<open>
  The texts that \<^verbatim>\<open>initialize_lookup_cache\<close> stores for a product and for a zip
  code are JSON objects written by \<^verbatim>\<open>json.dumps\<close>; a name or a text value stands
  between double quotes. The text stored for a currency is the decimal text of its rate.
\<close>

definition quoted :: "string \<Rightarrow> string" where
  "quoted v = CHR 0x22 # v @ [CHR 0x22]"

definition product_text :: string where
  "product_text =
     ''{'' @ quoted ''product_name'' @ '': '' @ quoted ''Laptop'' @ '', '' @
     quoted ''category'' @ '': '' @ quoted ''Electronics'' @ '', '' @
     quoted ''base_price'' @ '': 1299.99}''"

definition zip_text :: string where
  "zip_text =
     ''{'' @ quoted ''city'' @ '': '' @ quoted ''New York'' @ '', '' @
     quoted ''state'' @ '': '' @ quoted ''NY'' @ '', '' @
     quoted ''country'' @ '': '' @ quoted ''US'' @ '', '' @
     quoted ''timezone'' @ '': '' @ quoted ''America/New_York'' @ '', '' @
     quoted ''shipping_zone'' @ '': 1}''"

definition rate_text :: string where
  "rate_text = ''1.0''"

text \<open>
  A store whose lookup cache knows the product, the currency and the zip code of the
  sample order, and the same store after the sample order has been ingested.
\<close>

definition cached_store :: "order redis" where
  "cached_store =
     set_cache lookup_cache ''zipcode:10001'' zip_text None
       (set_cache lookup_cache ''currency:USD'' rate_text None
          (set_cache lookup_cache ''product:PROD-001'' product_text None
             empty_redis))"

definition queued_store :: "order redis" where
  "queued_store = snd (ingest_orders sample_config [sample_order] cached_store)"

text \<open>
  Tables of \<^verbatim>\<open>json.loads\<close> and \<^verbatim>\<open>float\<close> on the texts of this cache: the two
  objects are not empty and the rate is not zero, so Python takes all three values as
  true. The empty object and the rate zero are taken as false. The tables say nothing
  about other texts; the results below that use them hold for every pair of functions
  that agrees with them on the three texts of the cache.
\<close>

definition sample_json_loads :: "string \<Rightarrow> py_value" where
  "sample_json_loads v =
     (if v = product_text \<or> v = zip_text then Truthy
      else if v = ''{}'' then Falsy
      else Raises)"

definition sample_float :: "string \<Rightarrow> py_value" where
  "sample_float v =
     (if v = rate_text then Truthy
      else if v = ''0.0'' then Falsy
      else Raises)"

section \<open>Results on the queue\<close>

lemma list_keys_incrby [simp]: "list_keys (snd (redis_incrby k n s)) = list_keys s"
  by (simp add: redis_incrby_def Let_def)

lemma list_keys_decrby [simp]: "list_keys (snd (redis_decrby k n s)) = list_keys s"
  by (simp add: redis_decrby_def Let_def)

lemma list_keys_push_batch:
  "list_keys (push_batch q jobs s) q = rev jobs @ list_keys s q"
  by (simp add: push_batch_def redis_lpush_def Let_def)

lemma counter_push: "counter q (push q job s) = counter q s + 1"
  by (simp add: counter_def push_def redis_get_def redis_incr_def redis_incrby_def
      redis_lpush_def Let_def)

lemma counter_push_batch: "counter q (push_batch q jobs s) = counter q s + int (length jobs)"
  by (simp add: counter_def push_batch_def redis_get_def redis_incrby_def
      redis_lpush_def Let_def)

lemma pop_nonempty:
  "list_keys s q \<noteq> [] \<Longrightarrow>
   \<exists>s1. pop q t s = Some (Some (last (list_keys s q)), s1) \<and>
        list_keys s1 q = butlast (list_keys s q) \<and>
        counter q s1 = counter q s - 1"
  by (cases "list_keys s q")
     (simp_all add: pop_def redis_brpop_def redis_decr_def redis_decrby_def counter_def
        redis_get_def Let_def)

text \<open>
  C1: the counter kept beside the queue is to be a lifetime total that never goes down.
  Each push adds to it (\<open>counter_push\<close>, \<open>counter_push_batch\<close>), but every
  successful pop takes one off again (\<open>pop_nonempty\<close>): after one push and one pop on
  a fresh queue the counter has gone from 1 back to 0.
\<close>

theorem counter_goes_down_on_pop:
  "counter ''orders:ingestion'' (push ''orders:ingestion'' sample_order empty_redis) = 1 \<and>
   map_option (counter ''orders:ingestion'' \<circ> snd)
     (pop ''orders:ingestion'' 5 (push ''orders:ingestion'' sample_order empty_redis)) = Some 0"
  by (simp add: counter_def push_def pop_def redis_brpop_def redis_decr_def redis_decrby_def
      redis_get_def redis_incr_def redis_incrby_def redis_lpush_def empty_redis_def
      counter_key_def)

lemma take_Suc_rev:
  "xs \<noteq> [] \<Longrightarrow> take (Suc n) (rev xs) = last xs # take n (rev (butlast xs))"
  by (cases xs rule: rev_cases) simp_all

lemma pop_repeatedly_take:
  "n \<le> length (list_keys s q) \<Longrightarrow>
   map_option fst (pop_repeatedly q t n s) = Some (take n (rev (list_keys s q)))"
proof (induction n arbitrary: s)
  case 0
  then show ?case by simp
next
  case (Suc n)
  then have ne: "list_keys s q \<noteq> []" by auto
  from pop_nonempty [OF ne] obtain s1 where
    p: "pop q t s = Some (Some (last (list_keys s q)), s1)" and
    l: "list_keys s1 q = butlast (list_keys s q)" by blast
  from Suc.prems l have "n \<le> length (list_keys s1 q)" by simp
  from Suc.IH [OF this]
  have ih: "map_option fst (pop_repeatedly q t n s1)
      = Some (take n (rev (butlast (list_keys s q))))"
    by (simp add: l)
  have "take (Suc n) (rev (list_keys s q))
      = last (list_keys s q) # take n (rev (butlast (list_keys s q)))"
    using ne by (rule take_Suc_rev)
  then show ?case using p ih
    by (auto split: option.splits)
qed

text \<open>
  C9: the records of one \<^verbatim>\<open>push_batch\<close> call come back in their order in the batch.
  Popping as many times as the queue has entries after the call returns first the entries
  that were already waiting, oldest first, and then the batch in the order it was given;
  no pop blocks.
\<close>

theorem push_batch_fifo:
  "map_option fst
     (pop_repeatedly q t (length (list_keys s q) + length jobs) (push_batch q jobs s))
   = Some (rev (list_keys s q) @ jobs)"
  using pop_repeatedly_take [of "length (list_keys s q) + length jobs" "push_batch q jobs s" q t]
  by (simp add: list_keys_push_batch)

theorem push_batch_fifo_witness:
  "map_option fst
     (pop_repeatedly ''q'' 5 3 (push_batch ''q'' [1::nat, 2, 3] empty_redis)) = Some [1, 2, 3]"
proof -
  have e: "list_keys (empty_redis :: nat redis) ''q'' = []"
    by (simp add: empty_redis_def)
  have n: "length ([] :: nat list) + length [1::nat, 2, 3] = 3"
    by simp
  show ?thesis
    using push_batch_fifo [of "''q''" 5 "empty_redis" "[1::nat, 2, 3]"]
    by (simp only: e n rev.simps append_Nil)
qed

section \<open>Results on the backpressure counter\<close>

lemma get_depth_decrement:
  "get_depth ns q (snd (decrement ns q n s)) = get_depth ns q s - n"
  by (simp add: get_depth_def decrement_def redis_decrby_def redis_get_def Let_def)

lemma get_depth_increment:
  "get_depth ns q (snd (increment ns q n s)) = get_depth ns q s + n"
  by (simp add: get_depth_def increment_def redis_incrby_def redis_get_def Let_def)

lemma get_depth_empty: "get_depth ns q empty_redis = 0"
  by (simp add: get_depth_def redis_get_def empty_redis_def)

text \<open>
  C7: \<^verbatim>\<open>should_throttle\<close> answers true exactly when the tracked depth has reached
  \<open>max_depth\<close>. The tracked depth moves with the counter: after an increment by \<open>n\<close>
  the answer is true exactly when the old depth plus \<open>n\<close> reaches \<open>max_depth\<close>, and
  after a decrement by \<open>n\<close> exactly when the old depth minus \<open>n\<close> still does, so a
  decrement that brings the depth below \<open>max_depth\<close> turns the answer to false.
\<close>

theorem should_throttle_depth:
  "should_throttle ns q m s = (m \<le> get_depth ns q s) \<and>
   should_throttle ns q m (snd (increment ns q n s)) = (m \<le> get_depth ns q s + n) \<and>
   should_throttle ns q m (snd (decrement ns q n s)) = (m \<le> get_depth ns q s - n)"
  by (simp add: should_throttle_def get_depth_decrement get_depth_increment)

theorem should_throttle_depth_witness:
  "should_throttle ''backpressure'' ''ingestion'' 3
     (snd (increment ''backpressure'' ''ingestion'' 3 (empty_redis :: nat redis))) \<and>
   \<not> should_throttle ''backpressure'' ''ingestion'' 3
     (snd (decrement ''backpressure'' ''ingestion'' 1
        (snd (increment ''backpressure'' ''ingestion'' 3 (empty_redis :: nat redis)))))"
proof -
  have d3: "get_depth ''backpressure'' ''ingestion''
      (snd (increment ''backpressure'' ''ingestion'' 3 (empty_redis :: nat redis))) = 3"
    by (simp add: get_depth_increment get_depth_empty)
  show ?thesis
    using should_throttle_depth
        [of "''backpressure''" "''ingestion''" 3 "empty_redis :: nat redis" 3]
      should_throttle_depth [of "''backpressure''" "''ingestion''" 3
        "snd (increment ''backpressure'' ''ingestion'' 3 (empty_redis :: nat redis))" 1]
    by (simp add: get_depth_empty d3)
qed

section \<open>Results on a rejected ingestion\<close>

lemma full_store_throttles:
  "should_throttle backpressure ''ingestion'' (max_queue_depth sample_config) full_store"
  by (simp add: should_throttle_def full_store_def get_depth_increment get_depth_empty
      sample_config_def)

text \<open>
  C5: an \<^verbatim>\<open>ingest_orders\<close> call made while \<^verbatim>\<open>should_throttle\<close> holds rejects the
  whole incoming set: the statistics give the size of the input as the total and zero new,
  zero duplicate and zero queued orders, and the ingestion queue holds what it held before.
\<close>

theorem ingest_orders_throttled:
  assumes "should_throttle backpressure ''ingestion'' (max_queue_depth cfg) s"
  shows "fst (ingest_orders cfg orders s) =
           \<lparr>st_total = int (length orders), st_new = 0, st_duplicates = 0, st_queued = 0\<rparr> \<and>
         list_keys (snd (ingest_orders cfg orders s)) ingestion_queue
           = list_keys s ingestion_queue"
  using assms by (simp add: ingest_orders_def)

theorem ingest_orders_throttled_witness:
  "should_throttle backpressure ''ingestion'' (max_queue_depth sample_config) full_store \<and>
   fst (ingest_orders sample_config [sample_order, sample_order] full_store) =
     \<lparr>st_total = 2, st_new = 0, st_duplicates = 0, st_queued = 0\<rparr> \<and>
   list_keys (snd (ingest_orders sample_config [sample_order, sample_order] full_store))
     ingestion_queue = []"
proof -
  have q: "list_keys full_store ingestion_queue = []"
    by (simp add: full_store_def increment_def empty_redis_def)
  show ?thesis
    using ingest_orders_throttled [OF full_store_throttles, of "[sample_order, sample_order]"]
      full_store_throttles
    by (simp add: q)
qed

text \<open>
  C10: a rejection by backpressure leaves the whole store as it was: the deduplication
  window, the queue and its counter, and the backpressure counter are all part of the
  store, and the store returned is the store the call was given.
\<close>

theorem ingest_orders_throttled_state:
  assumes "should_throttle backpressure ''ingestion'' (max_queue_depth cfg) s"
  shows "snd (ingest_orders cfg orders s) = s"
  using assms by (simp add: ingest_orders_def)

theorem ingest_orders_throttled_state_witness:
  "should_throttle backpressure ''ingestion'' (max_queue_depth sample_config) full_store \<and>
   snd (ingest_orders sample_config [sample_order] full_store) = full_store"
  using ingest_orders_throttled_state [OF full_store_throttles, of "[sample_order]"]
    full_store_throttles
  by simp

section \<open>Results on the promotion\<close>

text \<open>
  C6: \<^verbatim>\<open>promote_to_production\<close> returns the number of rows the stored procedure
  moved. When that number is not zero the views are refreshed once and one
  \<^verbatim>\<open>batch_promoted\<close> event with the number is published; when it is zero the call
  returns 0 and neither the store nor the database changes, so there is no refresh and no
  event. With an empty staging table the number is zero.
\<close>

theorem promote_effects:
  "promote_to_production valid (s, db) =
     (let n = int (length (filter valid (orders_staging db)))
      in if n \<noteq> 0
         then (n,
               s\<lparr>published := published s @
                  [(''pipeline:events'',
                    \<lparr>event = ''batch_promoted'', count = n, timestamp = clock s\<rparr>)]\<rparr>,
               db\<lparr>orders_production := orders_production db @ filter valid (orders_staging db),
                  orders_staging := filter (\<lambda>r. \<not> valid r) (orders_staging db),
                  view_refreshes := Suc (view_refreshes db)\<rparr>)
         else (0, s, db))"
  by (simp add: promote_to_production_def staging_promote_def promote_staging_to_production_def
      refresh_all_def publish_def redis_publish_def Let_def)

theorem promote_effects_witness:
  "promote_to_production (\<lambda>r. True) (empty_redis, empty_postgres)
     = (0, empty_redis, empty_postgres) \<and>
   fst (promote_to_production (\<lambda>r. True)
          (empty_redis, empty_postgres\<lparr>orders_staging := [sample_order]\<rparr>)) = 1 \<and>
   view_refreshes (snd (snd (promote_to_production (\<lambda>r. True)
          (empty_redis, empty_postgres\<lparr>orders_staging := [sample_order]\<rparr>)))) = 1"
  using promote_effects [of "\<lambda>r. True" empty_redis empty_postgres]
    promote_effects [of "\<lambda>r. True" empty_redis "empty_postgres\<lparr>orders_staging := [sample_order]\<rparr>"]
  by (simp add: empty_postgres_def)

section \<open>Results on the deduplication window\<close>

lemma set_hkeys: "set (redis_hkeys k s) = fst ` set (hash_keys s k)"
  by (simp add: redis_hkeys_def)

lemma map_of_None_hkeys: "(map_of (hash_keys s k) f = None) = (f \<notin> set (redis_hkeys k s))"
  by (simp add: set_hkeys map_of_eq_None_iff)

lemma is_duplicate_iff: "is_duplicate wn rid s = (rid \<in> set (redis_hkeys wn s))"
  by (simp add: is_duplicate_def redis_hexists_def map_of_None_hkeys)

lemma hsetnx_fst:
  "fst (redis_hsetnx k f v s) = (if f \<in> set (redis_hkeys k s) then 0 else 1)"
proof (cases "map_of (hash_keys s k) f")
  case None
  then show ?thesis using map_of_None_hkeys [of s k f] by (simp add: redis_hsetnx_def)
next
  case (Some a)
  then show ?thesis using map_of_None_hkeys [of s k f] by (simp add: redis_hsetnx_def)
qed

lemma hsetnx_hkeys:
  "set (redis_hkeys k (snd (redis_hsetnx k f v s))) = insert f (set (redis_hkeys k s))"
proof (cases "map_of (hash_keys s k) f")
  case None
  then show ?thesis by (simp add: redis_hsetnx_def set_hkeys)
next
  case (Some a)
  then have "f \<in> set (redis_hkeys k s)" using map_of_None_hkeys [of s k f] by simp
  then show ?thesis using Some by (auto simp add: redis_hsetnx_def)
qed

lemma hsetnx_frame:
  "clock (snd (redis_hsetnx k f v s)) = clock s"
  "list_keys (snd (redis_hsetnx k f v s)) = list_keys s"
  "string_keys (snd (redis_hsetnx k f v s)) = string_keys s"
  "deadline (snd (redis_hsetnx k f v s)) = deadline s"
  "published (snd (redis_hsetnx k f v s)) = published s"
  by (simp_all add: redis_hsetnx_def split: option.splits)

lemma hsetnx_other:
  "k' \<noteq> k \<Longrightarrow> hash_keys (snd (redis_hsetnx k f v s)) k' = hash_keys s k'"
  by (simp add: redis_hsetnx_def split: option.splits)

lemma hsetnx_each_Cons:
  "fst (hsetnx_each k (f # fs) v s)
     = fst (redis_hsetnx k f v s) # fst (hsetnx_each k fs v (snd (redis_hsetnx k f v s)))"
  "snd (hsetnx_each k (f # fs) v s) = snd (hsetnx_each k fs v (snd (redis_hsetnx k f v s)))"
  by (simp_all add: split_def Let_def)

declare hsetnx_each.simps(2) [simp del]

lemma hsetnx_each_sum:
  "sum_list (fst (hsetnx_each k fs v s)) = int (card (set fs - set (redis_hkeys k s)))"
proof (induction fs arbitrary: s)
  case Nil
  then show ?case by simp
next
  case (Cons f fs)
  let ?D = "set (redis_hkeys k s)"
  have ih: "sum_list (fst (hsetnx_each k fs v (snd (redis_hsetnx k f v s))))
      = int (card (set fs - insert f ?D))"
    by (simp only: Cons.IH hsetnx_hkeys)
  have step: "sum_list (fst (hsetnx_each k (f # fs) v s))
      = fst (redis_hsetnx k f v s) + int (card (set fs - insert f ?D))"
    by (simp only: hsetnx_each_Cons sum_list.Cons ih)
  show ?case
  proof (cases "f \<in> ?D")
    case False
    have "set (f # fs) - ?D = insert f (set fs - insert f ?D)"
      using False by auto
    then have "card (set (f # fs) - ?D) = Suc (card (set fs - insert f ?D))"
      by simp
    moreover have "fst (redis_hsetnx k f v s) = 1"
      using False by (simp add: hsetnx_fst)
    ultimately show ?thesis using step by simp
  next
    case True
    then have "set (f # fs) - ?D = set fs - insert f ?D"
      by auto
    moreover have "fst (redis_hsetnx k f v s) = 0"
      using True by (simp add: hsetnx_fst)
    ultimately show ?thesis using step by simp
  qed
qed

lemma hsetnx_each_hkeys:
  "set (redis_hkeys k (snd (hsetnx_each k fs v s))) = set (redis_hkeys k s) \<union> set fs"
proof (induction fs arbitrary: s)
  case Nil
  then show ?case by simp
next
  case (Cons f fs)
  then show ?case by (simp add: hsetnx_each_Cons hsetnx_hkeys)
qed

lemma hsetnx_each_frame:
  "clock (snd (hsetnx_each k fs v s)) = clock s \<and>
   deadline (snd (hsetnx_each k fs v s)) = deadline s"
proof (induction fs arbitrary: s)
  case Nil
  then show ?case by simp
next
  case (Cons f fs)
  then show ?case by (simp add: hsetnx_each_Cons hsetnx_frame)
qed

lemma expire_hash:
  "0 < ttl \<Longrightarrow> hash_keys (snd (redis_expire k ttl s)) = hash_keys s"
  by (simp add: redis_expire_def)

lemma expire_hkeys:
  "0 < ttl \<Longrightarrow> redis_hkeys k' (snd (redis_expire k ttl s)) = redis_hkeys k' s"
  by (simp add: redis_hkeys_def expire_hash)

lemma expire_deadline:
  "0 < ttl \<Longrightarrow> set (redis_hkeys k s) \<noteq> {} \<Longrightarrow>
   deadline (snd (redis_expire k ttl s)) k = Some (clock s + ttl)"
  by (simp add: redis_expire_def key_exists_def set_hkeys)

lemma mark_batch_fst:
  "fst (mark_batch wn ttl ids s) = int (card (set ids - set (redis_hkeys wn s)))"
proof (cases "ids = []")
  case True
  then show ?thesis by (simp add: mark_batch_def)
next
  case False
  then have "fst (mark_batch wn ttl ids s)
      = sum_list (fst (hsetnx_each wn ids (decimal (clock s)) s))"
    by (simp add: mark_batch_def split_def Let_def)
  then show ?thesis by (simp only: hsetnx_each_sum)
qed

lemma mark_batch_snd:
  "ids \<noteq> [] \<Longrightarrow> snd (mark_batch wn ttl ids s)
     = snd (redis_expire wn ttl (snd (hsetnx_each wn ids (decimal (clock s)) s)))"
  by (simp add: mark_batch_def split_def Let_def)

lemma mark_batch_hkeys:
  assumes "0 < ttl"
  shows "set (redis_hkeys wn (snd (mark_batch wn ttl ids s))) = set (redis_hkeys wn s) \<union> set ids"
proof (cases "ids = []")
  case True
  then show ?thesis by (simp add: mark_batch_def)
next
  case False
  then show ?thesis using assms
    by (simp add: mark_batch_snd expire_hkeys hsetnx_each_hkeys)
qed

lemma count_new_card:
  "length (filter (\<lambda>r. \<not> is_duplicate wn r s) (remdups ids))
     = card (set ids - set (redis_hkeys wn s))"
proof -
  have "distinct (filter (\<lambda>r. \<not> is_duplicate wn r s) (remdups ids))" by simp
  then have "length (filter (\<lambda>r. \<not> is_duplicate wn r s) (remdups ids))
      = card (set (filter (\<lambda>r. \<not> is_duplicate wn r s) (remdups ids)))"
    by (simp only: distinct_card)
  also have "set (filter (\<lambda>r. \<not> is_duplicate wn r s) (remdups ids))
      = set ids - set (redis_hkeys wn s)"
    by (auto simp add: is_duplicate_iff)
  finally show ?thesis .
qed

lemma mark_batch_deadline:
  assumes "0 < ttl" "ids \<noteq> []"
  shows "deadline (snd (mark_batch wn ttl ids s)) wn = Some (clock s + ttl)"
proof -
  let ?s1 = "snd (hsetnx_each wn ids (decimal (clock s)) s)"
  have "set (redis_hkeys wn ?s1) \<noteq> {}" using assms(2) by (simp add: hsetnx_each_hkeys)
  then show ?thesis using assms
    by (simp add: mark_batch_snd expire_deadline hsetnx_each_frame)
qed

lemma mark_seen_fst:
  "fst (mark_seen wn ttl rid s) = (rid \<notin> set (redis_hkeys wn s))"
  by (simp add: mark_seen_def split_def Let_def hsetnx_fst)

lemma mark_seen_snd:
  "snd (mark_seen wn ttl rid s) =
     (if redis_hlen wn (snd (redis_hsetnx wn rid (decimal (clock s)) s)) = 1
      then snd (redis_expire wn ttl (snd (redis_hsetnx wn rid (decimal (clock s)) s)))
      else snd (redis_hsetnx wn rid (decimal (clock s)) s))"
  by (simp add: mark_seen_def split_def Let_def)

lemma expire_frame:
  "0 < ttl \<Longrightarrow> clock (snd (redis_expire k ttl s)) = clock s"
  "0 < ttl \<Longrightarrow> list_keys (snd (redis_expire k ttl s)) = list_keys s"
  "0 < ttl \<Longrightarrow> string_keys (snd (redis_expire k ttl s)) = string_keys s"
  "0 < ttl \<Longrightarrow> published (snd (redis_expire k ttl s)) = published s"
  by (simp_all add: redis_expire_def)

lemma expire_clock: "clock (snd (redis_expire k ttl s)) = clock s"
  by (simp add: redis_expire_def redis_del_def)

lemma mark_seen_clock: "clock (snd (mark_seen wn ttl rid s)) = clock s"
  by (simp add: mark_seen_snd expire_clock hsetnx_frame)

lemma mark_seen_hkeys:
  "0 < ttl \<Longrightarrow>
   set (redis_hkeys wn (snd (mark_seen wn ttl rid s))) = insert rid (set (redis_hkeys wn s))"
  by (simp add: mark_seen_snd expire_hkeys hsetnx_hkeys)

lemma mark_seen_frame:
  "0 < ttl \<Longrightarrow> list_keys (snd (mark_seen wn ttl rid s)) = list_keys s"
  "0 < ttl \<Longrightarrow> string_keys (snd (mark_seen wn ttl rid s)) = string_keys s"
  "0 < ttl \<Longrightarrow> published (snd (mark_seen wn ttl rid s)) = published s"
  by (simp_all add: mark_seen_snd expire_frame hsetnx_frame)

lemma hlen_hsetnx_empty:
  "hash_keys s k = [] \<Longrightarrow> redis_hlen k (snd (redis_hsetnx k f v s)) = 1"
  by (simp add: redis_hlen_def redis_hkeys_def redis_hsetnx_def)

lemma mark_seen_first_deadline:
  assumes "hash_keys s wn = []" "0 < ttl"
  shows "deadline (snd (mark_seen wn ttl rid s)) wn = Some (clock s + ttl)"
proof -
  let ?s1 = "snd (redis_hsetnx wn rid (decimal (clock s)) s)"
  have "set (redis_hkeys wn ?s1) \<noteq> {}" by (simp add: hsetnx_hkeys)
  then show ?thesis using assms
    by (simp add: mark_seen_snd hlen_hsetnx_empty expire_deadline hsetnx_frame)
qed

lemma hlen_card: "redis_hlen k s = int (card (set (redis_hkeys k s)))"
  by (simp add: redis_hlen_def redis_hkeys_def length_remdups_card_conv)

lemma hlen_expire:
  "redis_hlen k (snd (redis_expire k ttl s)) = 0 \<or>
   redis_hlen k (snd (redis_expire k ttl s)) = redis_hlen k s"
  by (simp add: redis_expire_def redis_del_def redis_hlen_def redis_hkeys_def)

lemma mark_seen_keeps_deadline:
  assumes "2 \<le> redis_hlen wn (snd (mark_seen wn ttl rid s))"
  shows "deadline (snd (mark_seen wn ttl rid s)) = deadline s"
proof -
  let ?s1 = "snd (redis_hsetnx wn rid (decimal (clock s)) s)"
  show ?thesis
  proof (cases "redis_hlen wn ?s1 = 1")
    case True
    then have "snd (mark_seen wn ttl rid s) = snd (redis_expire wn ttl ?s1)"
      by (simp add: mark_seen_snd)
    with hlen_expire [of wn ttl ?s1] True assms show ?thesis by auto
  next
    case False
    then show ?thesis by (simp add: mark_seen_snd hsetnx_frame)
  qed
qed

text \<open>
  C8: \<^verbatim>\<open>mark_batch\<close> answers the number of identifiers of the list that the window
  did not hold before the call, an identifier that occurs several times in the list being
  counted once; with a positive time to live the window holds afterwards what it held
  before together with every identifier of the list. The whole batch is one transition
  of the store.
\<close>

theorem mark_batch_counts_new:
  "fst (mark_batch wn ttl ids s)
     = int (length (filter (\<lambda>r. \<not> is_duplicate wn r s) (remdups ids))) \<and>
   (0 < ttl \<longrightarrow>
      (\<forall>r. is_duplicate wn r (snd (mark_batch wn ttl ids s))
             = (is_duplicate wn r s \<or> r \<in> set ids)))"
proof -
  have "fst (mark_batch wn ttl ids s)
      = int (length (filter (\<lambda>r. \<not> is_duplicate wn r s) (remdups ids)))"
    by (simp only: mark_batch_fst count_new_card)
  moreover have "0 < ttl \<longrightarrow>
      (\<forall>r. is_duplicate wn r (snd (mark_batch wn ttl ids s))
             = (is_duplicate wn r s \<or> r \<in> set ids))"
    by (simp add: is_duplicate_iff mark_batch_hkeys)
  ultimately show ?thesis by blast
qed

lemma sample_window_keys:
  "redis_hkeys ''orders:dedup''
     (snd (mark_seen ''orders:dedup'' 3600 ''a'' (empty_redis :: order redis))) = [''a'']"
  by (simp add: mark_seen_def redis_hsetnx_def redis_hlen_def redis_hkeys_def redis_expire_def
      key_exists_def empty_redis_def Let_def)

theorem mark_batch_counts_new_witness:
  "(0::int) < 3600 \<and>
   fst (mark_batch ''orders:dedup'' 3600 [''a'', ''b'', ''b'', ''c'']
          (snd (mark_seen ''orders:dedup'' 3600 ''a'' (empty_redis :: order redis)))) = 2 \<and>
   is_duplicate ''orders:dedup'' ''c''
     (snd (mark_batch ''orders:dedup'' 3600 [''a'', ''b'', ''b'', ''c'']
          (snd (mark_seen ''orders:dedup'' 3600 ''a'' (empty_redis :: order redis)))))"
  using mark_batch_counts_new [of "''orders:dedup''" 3600 "[''a'', ''b'', ''b'', ''c'']"
      "snd (mark_seen ''orders:dedup'' 3600 ''a'' (empty_redis :: order redis))"]
  by (simp add: is_duplicate_iff sample_window_keys)

text \<open>
  C2 as stated does not hold: the horizon fixed at 3600 by the first entry is moved to 3610
  by a \<^verbatim>\<open>mark_batch\<close> call made ten seconds later on the window, which is not empty.
\<close>

theorem mark_batch_moves_deadline:
  "deadline (snd (mark_seen ''orders:dedup'' 3600 ''a'' (empty_redis :: order redis)))
     ''orders:dedup'' = Some 3600 \<and>
   deadline
     (snd (mark_batch ''orders:dedup'' 3600 [''b'']
        (advance 10 (snd (mark_seen ''orders:dedup'' 3600 ''a'' (empty_redis :: order redis))))))
     ''orders:dedup'' = Some 3610"
proof -
  let ?s1 = "snd (mark_seen ''orders:dedup'' 3600 ''a'' (empty_redis :: order redis))"
  have c0: "clock (empty_redis :: order redis) = 0" by (simp add: empty_redis_def)
  have h0: "hash_keys (empty_redis :: order redis) ''orders:dedup'' = []"
    by (simp add: empty_redis_def)
  have d1: "deadline ?s1 ''orders:dedup'' = Some 3600"
    using mark_seen_first_deadline [OF h0, of 3600 "''a''"] by (simp add: c0)
  have "clock (advance 10 ?s1) = 10"
    by (simp add: advance_def purge_def mark_seen_clock c0)
  then have "deadline (snd (mark_batch ''orders:dedup'' 3600 [''b''] (advance 10 ?s1)))
      ''orders:dedup'' = Some 3610"
    using mark_batch_deadline [of 3600 "[''b'']" "''orders:dedup''" "advance 10 ?s1"] by simp
  with d1 show ?thesis by simp
qed

text \<open>
  C2, amended: the \<^verbatim>\<open>mark_seen\<close> call that puts the first entry into an empty window
  sets the horizon to now plus the time to live, and a \<^verbatim>\<open>mark_seen\<close> call that leaves
  the window with two or more entries does not move it; but every \<^verbatim>\<open>mark_batch\<close> call
  with a list that is not empty sets the horizon anew to now plus the time to live, and
  one with the empty list changes nothing.
\<close>

theorem dedup_window_deadline:
  assumes "0 < ttl"
  shows "(hash_keys s wn = [] \<longrightarrow>
            deadline (snd (mark_seen wn ttl rid s)) wn = Some (clock s + ttl)) \<and>
         (2 \<le> redis_hlen wn (snd (mark_seen wn ttl rid s)) \<longrightarrow>
            deadline (snd (mark_seen wn ttl rid s)) = deadline s) \<and>
         (ids \<noteq> [] \<longrightarrow>
            deadline (snd (mark_batch wn ttl ids s)) wn = Some (clock s + ttl)) \<and>
         mark_batch wn ttl [] s = (0, s)"
proof -
  have "mark_batch wn ttl [] s = (0, s)"
    by (simp add: mark_batch_def)
  then show ?thesis
    using assms mark_seen_first_deadline [of s wn ttl rid]
      mark_seen_keeps_deadline [of wn ttl rid s] mark_batch_deadline [of ttl ids wn s]
    by blast
qed

theorem dedup_window_deadline_witness:
  "(0::int) < 3600 \<and>
   hash_keys (empty_redis :: order redis) ''orders:dedup'' = [] \<and>
   deadline (snd (mark_seen ''orders:dedup'' 3600 ''a'' (empty_redis :: order redis)))
     ''orders:dedup'' = Some 3600 \<and>
   2 \<le> redis_hlen ''orders:dedup''
     (snd (mark_seen ''orders:dedup'' 3600 ''b''
        (advance 10 (snd (mark_seen ''orders:dedup'' 3600 ''a'' (empty_redis :: order redis)))))) \<and>
   deadline
     (snd (mark_seen ''orders:dedup'' 3600 ''b''
        (advance 10 (snd (mark_seen ''orders:dedup'' 3600 ''a'' (empty_redis :: order redis))))))
     ''orders:dedup'' = Some 3600 \<and>
   [''b''] \<noteq> [] \<and>
   deadline
     (snd (mark_batch ''orders:dedup'' 3600 [''b'']
        (advance 10 (snd (mark_seen ''orders:dedup'' 3600 ''a'' (empty_redis :: order redis))))))
     ''orders:dedup'' = Some 3610"
proof -
  let ?s1 = "snd (mark_seen ''orders:dedup'' 3600 ''a'' (empty_redis :: order redis))"
  let ?s2 = "advance 10 ?s1"
  have c0: "clock (empty_redis :: order redis) = 0" by (simp add: empty_redis_def)
  have h0: "hash_keys (empty_redis :: order redis) ''orders:dedup'' = []"
    by (simp add: empty_redis_def)
  have d1: "deadline ?s1 ''orders:dedup'' = Some 3600"
    using dedup_window_deadline [of 3600 "empty_redis :: order redis" "''orders:dedup''" "''a''" "[]"]
      h0 c0 by simp
  have c2: "clock ?s2 = 10"
    by (simp add: advance_def purge_def mark_seen_clock c0)
  have live: "\<not> expired (?s1\<lparr>clock := clock ?s1 + int 10\<rparr>) ''orders:dedup''"
    by (simp add: expired_def d1 mark_seen_clock c0)
  have k2: "redis_hkeys ''orders:dedup'' ?s2 = [''a'']"
    using live sample_window_keys by (simp add: advance_def purge_def redis_hkeys_def)
  have d2: "deadline ?s2 ''orders:dedup'' = Some 3600"
    using live d1 by (simp add: advance_def purge_def)
  have "set (redis_hkeys ''orders:dedup'' (snd (mark_seen ''orders:dedup'' 3600 ''b'' ?s2)))
      = {''a'', ''b''}"
    by (auto simp add: mark_seen_hkeys k2)
  then have l3: "redis_hlen ''orders:dedup''
      (snd (mark_seen ''orders:dedup'' 3600 ''b'' ?s2)) = 2"
    by (simp add: hlen_card)
  show ?thesis
    using dedup_window_deadline [of 3600 ?s2 "''orders:dedup''" "''b''" "[''b'']"]
      d1 h0 l3 d2 c2
    by simp
qed

section \<open>Results on the ingestion of orders\<close>

lemma advance_hkeys_live:
  assumes "\<forall>t. deadline s k = Some t \<longrightarrow> clock s + int d < t"
  shows "redis_hkeys k (advance d s) = redis_hkeys k s"
proof -
  have "\<not> expired (s\<lparr>clock := clock s + int d\<rparr>) k"
    using assms by (auto simp add: expired_def split: option.splits)
  then show ?thesis by (simp add: advance_def purge_def redis_hkeys_def)
qed

lemma mark_batch_keeps:
  "0 < ttl \<Longrightarrow> is_duplicate wn rid s \<Longrightarrow> is_duplicate wn rid (snd (mark_batch wn ttl ids s))"
  by (simp add: is_duplicate_iff mark_batch_hkeys)

lemma mark_seen_keeps:
  "0 < ttl \<Longrightarrow> is_duplicate wn rid s \<Longrightarrow> is_duplicate wn rid (snd (mark_seen wn ttl r s))"
  by (simp add: is_duplicate_iff mark_seen_hkeys)

lemma ingest_loop_Cons:
  "ingest_loop ttl (order # orders) (stats, acc, s) =
     (if order_id order \<in> set (redis_hkeys deduplicator s)
      then ingest_loop ttl orders
             (stats\<lparr>st_duplicates := st_duplicates stats + 1\<rparr>, acc,
              snd (mark_seen deduplicator ttl (order_id order) s))
      else ingest_loop ttl orders
             (stats\<lparr>st_new := st_new stats + 1\<rparr>, acc @ [order],
              snd (mark_seen deduplicator ttl (order_id order) s)))"
proof -
  obtain b s1 where m: "mark_seen deduplicator ttl (order_id order) s = (b, s1)"
    by (cases "mark_seen deduplicator ttl (order_id order) s")
  have "b = (order_id order \<notin> set (redis_hkeys deduplicator s))"
    using mark_seen_fst [of deduplicator ttl "order_id order" s] m by simp
  then show ?thesis using m by (cases b) simp_all
qed

declare ingest_loop.simps(2) [simp del]

lemma ingest_loop_store:
  assumes "0 < ttl"
  shows "list_keys (snd (snd (ingest_loop ttl orders (stats, acc, s)))) = list_keys s \<and>
         string_keys (snd (snd (ingest_loop ttl orders (stats, acc, s)))) = string_keys s \<and>
         published (snd (snd (ingest_loop ttl orders (stats, acc, s)))) = published s \<and>
         clock (snd (snd (ingest_loop ttl orders (stats, acc, s)))) = clock s \<and>
         set (redis_hkeys deduplicator (snd (snd (ingest_loop ttl orders (stats, acc, s)))))
           = set (redis_hkeys deduplicator s) \<union> order_id ` set orders"
proof (induction orders arbitrary: stats acc s)
  case Nil
  then show ?case by simp
next
  case (Cons order orders)
  show ?case
    using assms
    by (simp add: ingest_loop_Cons Cons.IH mark_seen_frame mark_seen_clock mark_seen_hkeys)
qed

lemma ingest_loop_totals:
  "st_total (fst (ingest_loop ttl orders (stats, acc, s))) = st_total stats \<and>
   st_queued (fst (ingest_loop ttl orders (stats, acc, s))) = st_queued stats"
proof (induction orders arbitrary: stats acc s)
  case Nil
  then show ?case by simp
next
  case (Cons order orders)
  show ?case by (simp add: ingest_loop_Cons Cons.IH)
qed

lemma ingest_loop_batch:
  assumes "0 < ttl"
  shows "\<exists>batch.
           fst (snd (ingest_loop ttl orders (stats, acc, s))) = acc @ batch \<and>
           order_id ` set batch = order_id ` set orders - set (redis_hkeys deduplicator s) \<and>
           distinct (map order_id batch) \<and>
           set batch \<subseteq> set orders \<and>
           st_new (fst (ingest_loop ttl orders (stats, acc, s)))
             = st_new stats + int (length batch) \<and>
           st_duplicates (fst (ingest_loop ttl orders (stats, acc, s)))
             = st_duplicates stats + int (length orders) - int (length batch)"
proof (induction orders arbitrary: stats acc s)
  case Nil
  then show ?case by simp
next
  case (Cons order orders)
  let ?K = "set (redis_hkeys deduplicator s)"
  let ?s1 = "snd (mark_seen deduplicator ttl (order_id order) s)"
  have k1: "set (redis_hkeys deduplicator ?s1) = insert (order_id order) ?K"
    using assms by (rule mark_seen_hkeys)
  show ?case
  proof (cases "order_id order \<in> ?K")
    case True
    let ?stats = "stats\<lparr>st_duplicates := st_duplicates stats + 1\<rparr>"
    have step: "ingest_loop ttl (order # orders) (stats, acc, s)
        = ingest_loop ttl orders (?stats, acc, ?s1)"
      using True by (simp add: ingest_loop_Cons)
    from Cons.IH [of ?stats acc ?s1] obtain batch where
      a: "fst (snd (ingest_loop ttl orders (?stats, acc, ?s1))) = acc @ batch" and
      b: "order_id ` set batch = order_id ` set orders - set (redis_hkeys deduplicator ?s1)" and
      d: "distinct (map order_id batch)" and
      sub: "set batch \<subseteq> set orders" and
      n: "st_new (fst (ingest_loop ttl orders (?stats, acc, ?s1)))
            = st_new ?stats + int (length batch)" and
      u: "st_duplicates (fst (ingest_loop ttl orders (?stats, acc, ?s1)))
            = st_duplicates ?stats + int (length orders) - int (length batch)"
      by (elim exE conjE)
    have b': "order_id ` set batch = order_id ` set (order # orders) - ?K"
      using b k1 True by auto
    have sub': "set batch \<subseteq> set (order # orders)"
      using sub by auto
    have n': "st_new (fst (ingest_loop ttl orders (?stats, acc, ?s1)))
        = st_new stats + int (length batch)"
      using n by simp
    have u': "st_duplicates (fst (ingest_loop ttl orders (?stats, acc, ?s1)))
        = st_duplicates stats + int (length (order # orders)) - int (length batch)"
      using u by simp
    show ?thesis
      unfolding step using a b' d sub' n' u' by blast
  next
    case False
    let ?stats = "stats\<lparr>st_new := st_new stats + 1\<rparr>"
    have step: "ingest_loop ttl (order # orders) (stats, acc, s)
        = ingest_loop ttl orders (?stats, acc @ [order], ?s1)"
      using False by (simp add: ingest_loop_Cons)
    from Cons.IH [of ?stats "acc @ [order]" ?s1] obtain batch where
      a: "fst (snd (ingest_loop ttl orders (?stats, acc @ [order], ?s1)))
            = (acc @ [order]) @ batch" and
      b: "order_id ` set batch = order_id ` set orders - set (redis_hkeys deduplicator ?s1)" and
      d: "distinct (map order_id batch)" and
      sub: "set batch \<subseteq> set orders" and
      n: "st_new (fst (ingest_loop ttl orders (?stats, acc @ [order], ?s1)))
            = st_new ?stats + int (length batch)" and
      u: "st_duplicates (fst (ingest_loop ttl orders (?stats, acc @ [order], ?s1)))
            = st_duplicates ?stats + int (length orders) - int (length batch)"
      by (elim exE conjE)
    have a': "fst (snd (ingest_loop ttl orders (?stats, acc @ [order], ?s1)))
        = acc @ (order # batch)"
      using a by simp
    have notin: "order_id order \<notin> order_id ` set batch"
      using b k1 by auto
    have b': "order_id ` set (order # batch) = order_id ` set (order # orders) - ?K"
      using b k1 False by auto
    have d': "distinct (map order_id (order # batch))"
      using d notin by simp
    have sub': "set (order # batch) \<subseteq> set (order # orders)"
      using sub by auto
    have n': "st_new (fst (ingest_loop ttl orders (?stats, acc @ [order], ?s1)))
        = st_new stats + int (length (order # batch))"
      using n by simp
    have u': "st_duplicates (fst (ingest_loop ttl orders (?stats, acc @ [order], ?s1)))
        = st_duplicates stats + int (length (order # orders)) - int (length (order # batch))"
      using u by simp
    show ?thesis
      unfolding step using a' b' d' sub' n' u' by blast
  qed
qed

lemma ingest_orders_open:
  assumes "\<not> should_throttle backpressure ''ingestion'' (max_queue_depth cfg) s"
  shows "ingest_orders cfg orders s =
     (let r = ingest_loop (dedup_window_seconds cfg) orders
                (\<lparr>st_total = int (length orders), st_new = 0, st_duplicates = 0, st_queued = 0\<rparr>,
                 [], s)
      in if fst (snd r) \<noteq> []
         then (fst r\<lparr>st_queued := int (length (fst (snd r)))\<rparr>,
               snd (increment backpressure ''ingestion'' (int (length (fst (snd r))))
                      (push_batch ingestion_queue (fst (snd r)) (snd (snd r)))))
         else (fst r, snd (snd r)))"
  using assms by (simp add: ingest_orders_def split_def Let_def)

lemma ingest_orders_batch:
  assumes "0 < dedup_window_seconds cfg"
  shows "\<exists>batch.
           list_keys (snd (ingest_orders cfg orders s)) ingestion_queue
             = rev batch @ list_keys s ingestion_queue \<and>
           st_queued (fst (ingest_orders cfg orders s)) = int (length batch) \<and>
           set batch \<subseteq> set orders \<and>
           distinct (map order_id batch) \<and>
           (\<forall>x \<in> set batch. \<not> is_duplicate deduplicator (order_id x) s) \<and>
           (\<not> should_throttle backpressure ''ingestion'' (max_queue_depth cfg) s \<longrightarrow>
              order_id ` set batch
                = {i \<in> order_id ` set orders. \<not> is_duplicate deduplicator i s} \<and>
              st_total (fst (ingest_orders cfg orders s)) = int (length orders) \<and>
              st_new (fst (ingest_orders cfg orders s)) = int (length batch) \<and>
              st_duplicates (fst (ingest_orders cfg orders s))
                = int (length orders) - int (length batch))"
proof (cases "should_throttle backpressure ''ingestion'' (max_queue_depth cfg) s")
  case True
  then have "ingest_orders cfg orders s =
      (\<lparr>st_total = int (length orders), st_new = 0, st_duplicates = 0, st_queued = 0\<rparr>, s)"
    by (simp add: ingest_orders_def)
  then show ?thesis using True by (intro exI [of _ "[]"]) simp
next
  case False
  let ?stats = "\<lparr>st_total = int (length orders), st_new = 0, st_duplicates = 0, st_queued = 0\<rparr>"
  let ?r = "ingest_loop (dedup_window_seconds cfg) orders (?stats, [], s)"
  from ingest_loop_batch [OF assms, of orders ?stats "[]" s] obtain batch where
    a: "fst (snd ?r) = [] @ batch" and
    b: "order_id ` set batch = order_id ` set orders - set (redis_hkeys deduplicator s)" and
    d: "distinct (map order_id batch)" and
    sub: "set batch \<subseteq> set orders" and
    sn: "st_new (fst ?r) = st_new ?stats + int (length batch)" and
    sd: "st_duplicates (fst ?r)
           = st_duplicates ?stats + int (length orders) - int (length batch)"
    by (elim exE conjE)
  have a': "fst (snd ?r) = batch" using a by simp
  have t: "st_total (fst ?r) = int (length orders)"
    using ingest_loop_totals [of "dedup_window_seconds cfg" orders ?stats "[]" s] by simp
  have ids: "order_id ` set batch
      = {i \<in> order_id ` set orders. \<not> is_duplicate deduplicator i s}"
    using b by (auto simp add: is_duplicate_iff)
  have cnt: "st_total (fst (ingest_orders cfg orders s)) = int (length orders)"
    "st_new (fst (ingest_orders cfg orders s)) = int (length batch)"
    "st_duplicates (fst (ingest_orders cfg orders s))
       = int (length orders) - int (length batch)"
    using sn sd t by (simp_all add: ingest_orders_open [OF False] Let_def a')
  have lk: "list_keys (snd (snd ?r)) = list_keys s"
    using ingest_loop_store [OF assms, of orders ?stats "[]" s] by simp
  have q: "st_queued (fst ?r) = 0"
    using ingest_loop_totals [of "dedup_window_seconds cfg" orders ?stats "[]" s] by simp
  have new: "\<forall>x \<in> set batch. \<not> is_duplicate deduplicator (order_id x) s"
    using b by (auto simp add: is_duplicate_iff)
  have l: "list_keys (snd (ingest_orders cfg orders s)) ingestion_queue
      = rev batch @ list_keys s ingestion_queue"
    by (simp add: ingest_orders_open [OF False] Let_def a' lk increment_def list_keys_push_batch)
  have n: "st_queued (fst (ingest_orders cfg orders s)) = int (length batch)"
    by (simp add: ingest_orders_open [OF False] Let_def a' q)
  show ?thesis using l n sub d new ids cnt by blast
qed

lemma ingest_loop_seen:
  assumes "is_duplicate deduplicator (order_id x) s"
  shows "ingest_loop ttl (x # rest) (stats, acc, s) =
           ingest_loop ttl rest
             (stats\<lparr>st_duplicates := st_duplicates stats + 1\<rparr>, acc,
              snd (mark_seen deduplicator ttl (order_id x) s))"
  using assms by (simp add: ingest_loop_Cons is_duplicate_iff)

lemma mark_seen_twice:
  assumes "0 < ttl"
    and "\<forall>t. deadline (snd (mark_seen wn ttl rid s)) wn = Some t \<longrightarrow> clock s + int d < t"
  shows "\<not> fst (mark_seen wn ttl rid (advance d (snd (mark_seen wn ttl rid s))))"
proof -
  let ?s1 = "snd (mark_seen wn ttl rid s)"
  have "\<forall>t. deadline ?s1 wn = Some t \<longrightarrow> clock ?s1 + int d < t"
    using assms(2) by (simp add: mark_seen_clock)
  then have "redis_hkeys wn (advance d ?s1) = redis_hkeys wn ?s1"
    by (rule advance_hkeys_live)
  then show ?thesis using assms(1) by (simp add: mark_seen_fst mark_seen_hkeys)
qed

text \<open>
  C4: with a positive window length, a record id that has been marked is answered with
  false by a second \<^verbatim>\<open>mark_seen\<close> call made before the window's deadline is reached,
  and by any \<^verbatim>\<open>mark_seen\<close> call made while the window still holds it. The batch that
  \<^verbatim>\<open>ingest_orders\<close> pushes onto the ingestion queue is made of orders of the input, has
  no record id twice, and has no record id that the window held when the call was made;
  \<^verbatim>\<open>queued\<close> is its length. In a call that backpressure does not reject, the batch has
  every record id of the input that the window did not hold, once; \<^verbatim>\<open>new\<close> is the
  length of the batch and every other order of the input is counted in
  \<^verbatim>\<open>duplicates\<close>. In the loop, an order whose record id the window holds adds one to
  \<^verbatim>\<open>duplicates\<close> and leaves the batch as it is.
\<close>

theorem seen_record_not_requeued:
  assumes "0 < dedup_window_seconds cfg"
  shows "((\<forall>t. deadline (snd (mark_seen deduplicator (dedup_window_seconds cfg) rid s))
                 deduplicator = Some t \<longrightarrow> clock s + int d < t) \<longrightarrow>
          \<not> fst (mark_seen deduplicator (dedup_window_seconds cfg) rid
                   (advance d (snd (mark_seen deduplicator (dedup_window_seconds cfg) rid s))))) \<and>
         (is_duplicate deduplicator rid s \<longrightarrow>
          \<not> fst (mark_seen deduplicator (dedup_window_seconds cfg) rid s)) \<and>
         (\<exists>batch.
            list_keys (snd (ingest_orders cfg orders s)) ingestion_queue
              = rev batch @ list_keys s ingestion_queue \<and>
            st_queued (fst (ingest_orders cfg orders s)) = int (length batch) \<and>
            set batch \<subseteq> set orders \<and>
            distinct (map order_id batch) \<and>
            (\<forall>x \<in> set batch. \<not> is_duplicate deduplicator (order_id x) s) \<and>
            (\<not> should_throttle backpressure ''ingestion'' (max_queue_depth cfg) s \<longrightarrow>
               order_id ` set batch
                 = {i \<in> order_id ` set orders. \<not> is_duplicate deduplicator i s} \<and>
               st_total (fst (ingest_orders cfg orders s)) = int (length orders) \<and>
               st_new (fst (ingest_orders cfg orders s)) = int (length batch) \<and>
               st_duplicates (fst (ingest_orders cfg orders s))
                 = int (length orders) - int (length batch))) \<and>
         (is_duplicate deduplicator (order_id x) s \<longrightarrow>
            ingest_loop (dedup_window_seconds cfg) (x # rest) (stats, acc, s) =
              ingest_loop (dedup_window_seconds cfg) rest
                (stats\<lparr>st_duplicates := st_duplicates stats + 1\<rparr>, acc,
                 snd (mark_seen deduplicator (dedup_window_seconds cfg) (order_id x) s)))"
proof -
  have "is_duplicate deduplicator rid s \<longrightarrow>
      \<not> fst (mark_seen deduplicator (dedup_window_seconds cfg) rid s)"
    by (simp add: mark_seen_fst is_duplicate_iff)
  moreover have "is_duplicate deduplicator (order_id x) s \<longrightarrow>
      ingest_loop (dedup_window_seconds cfg) (x # rest) (stats, acc, s) =
        ingest_loop (dedup_window_seconds cfg) rest
          (stats\<lparr>st_duplicates := st_duplicates stats + 1\<rparr>, acc,
           snd (mark_seen deduplicator (dedup_window_seconds cfg) (order_id x) s))"
    using ingest_loop_seen by blast
  ultimately show ?thesis
    using mark_seen_twice [OF assms, of deduplicator rid s d]
      ingest_orders_batch [OF assms, of orders s]
    by blast
qed

lemma sample_ingest_run:
  "fst (ingest_orders sample_config [sample_order, sample_order] empty_redis)
     = \<lparr>st_total = 2, st_new = 1, st_duplicates = 1, st_queued = 1\<rparr> \<and>
   list_keys (snd (ingest_orders sample_config [sample_order, sample_order] empty_redis))
     ingestion_queue = [sample_order]"
  by code_simp

lemma sample_not_throttled:
  "\<not> should_throttle backpressure ''ingestion'' (max_queue_depth sample_config)
       (empty_redis :: order redis)"
  by (simp add: should_throttle_def get_depth_empty sample_config_def)

theorem seen_record_not_requeued_witness:
  "0 < dedup_window_seconds sample_config \<and>
   \<not> fst (mark_seen deduplicator 3600 ''ORD-1''
           (advance 10 (snd (mark_seen deduplicator 3600 ''ORD-1'' (empty_redis :: order redis))))) \<and>
   is_duplicate deduplicator ''ORD-1''
     (snd (mark_seen deduplicator 3600 ''ORD-1'' (empty_redis :: order redis))) \<and>
   \<not> fst (mark_seen deduplicator 3600 ''ORD-1''
           (snd (mark_seen deduplicator 3600 ''ORD-1'' (empty_redis :: order redis)))) \<and>
   \<not> should_throttle backpressure ''ingestion'' (max_queue_depth sample_config)
       (empty_redis :: order redis) \<and>
   (\<exists>batch.
      [sample_order] = rev batch \<and>
      set batch \<subseteq> {sample_order} \<and>
      (\<forall>x \<in> set batch. \<not> is_duplicate deduplicator (order_id x) (empty_redis :: order redis)) \<and>
      (1::int) = int (length batch) \<and>
      (1::int) = int (length [sample_order, sample_order]) - int (length batch)) \<and>
   ingest_loop 3600 [sample_order]
     (\<lparr>st_total = 1, st_new = 0, st_duplicates = 0, st_queued = 0\<rparr>, [],
      snd (mark_seen deduplicator 3600 ''ORD-1'' (empty_redis :: order redis)))
     = ingest_loop 3600 []
         (\<lparr>st_total = 1, st_new = 0, st_duplicates = 1, st_queued = 0\<rparr>, [],
          snd (mark_seen deduplicator 3600 ''ORD-1''
                 (snd (mark_seen deduplicator 3600 ''ORD-1'' (empty_redis :: order redis)))))"
proof -
  let ?s1 = "snd (mark_seen deduplicator 3600 ''ORD-1'' (empty_redis :: order redis))"
  let ?st = "\<lparr>st_total = 1, st_new = 0, st_duplicates = 0, st_queued = 0\<rparr>"
  have t: "dedup_window_seconds sample_config = 3600"
    by (simp add: sample_config_def)
  have pos: "0 < dedup_window_seconds sample_config"
    by (simp add: t)
  have c0: "clock (empty_redis :: order redis) = 0"
    by (simp add: empty_redis_def)
  have h0: "hash_keys (empty_redis :: order redis) deduplicator = []"
    by (simp add: empty_redis_def)
  have l0: "list_keys (empty_redis :: order redis) ingestion_queue = []"
    by (simp add: empty_redis_def)
  have oid: "order_id sample_order = ''ORD-1''"
    by (simp add: sample_order_def)
  have d1: "deadline ?s1 deduplicator = Some 3600"
    using mark_seen_first_deadline [OF h0, of 3600 "''ORD-1''"] by (simp add: c0)
  have dup: "is_duplicate deduplicator ''ORD-1'' ?s1"
    by (simp add: is_duplicate_iff mark_seen_hkeys)
  have a: "\<not> fst (mark_seen deduplicator 3600 ''ORD-1'' (advance 10 ?s1))"
    using seen_record_not_requeued [OF pos, of "''ORD-1''" empty_redis 10 "[]"] d1 c0 t
    by simp
  have b: "\<not> fst (mark_seen deduplicator 3600 ''ORD-1'' ?s1)"
    using seen_record_not_requeued [OF pos, of "''ORD-1''" ?s1 0 "[]"] dup t
    by simp
  have c: "\<exists>batch.
      [sample_order] = rev batch \<and>
      set batch \<subseteq> {sample_order} \<and>
      (\<forall>x \<in> set batch. \<not> is_duplicate deduplicator (order_id x) (empty_redis :: order redis)) \<and>
      (1::int) = int (length batch) \<and>
      (1::int) = int (length [sample_order, sample_order]) - int (length batch)"
    using seen_record_not_requeued
        [OF pos, of "''ORD-1''" empty_redis 0 "[sample_order, sample_order]"]
      sample_ingest_run l0 sample_not_throttled
    by auto
  have e: "ingest_loop 3600 [sample_order] (?st, [], ?s1)
      = ingest_loop 3600 []
          (\<lparr>st_total = 1, st_new = 0, st_duplicates = 1, st_queued = 0\<rparr>, [],
           snd (mark_seen deduplicator 3600 ''ORD-1'' ?s1))"
    using seen_record_not_requeued
        [OF pos, of "''ORD-1''" ?s1 0 "[]" sample_order "[]" ?st "[]"] dup t oid
    by simp
  show ?thesis using pos a dup b c e sample_not_throttled by blast
qed

section \<open>Results on the processing of a batch\<close>

lemma pop_one_second:
  "\<exists>r s1. pop q 1 s = Some (r, s1)"
  by (cases "list_keys s q") (simp_all add: pop_def redis_brpop_def)

lemma drain_stats:
  "\<exists>batch1 stats1 s1.
     drain n (batch, stats, s) = Some (batch1, stats1, s1) \<and>
     st_processed stats1 - int (length batch1) = st_processed stats - int (length batch) \<and>
     st_enriched stats1 = st_enriched stats \<and>
     st_staged stats1 = st_staged stats \<and>
     st_errors stats1 = st_errors stats"
proof (induction n arbitrary: batch stats s)
  case 0
  then show ?case by simp
next
  case (Suc n)
  obtain r s1 where p: "pop ingestion_queue 1 s = Some (r, s1)"
    using pop_one_second by blast
  show ?case
  proof (cases r)
    case None
    then show ?thesis using p by simp
  next
    case (Some order)
    let ?stats = "stats\<lparr>st_processed := st_processed stats + 1\<rparr>"
    have step: "drain (Suc n) (batch, stats, s) = drain n (batch @ [order], ?stats, s1)"
      using p Some by simp
    from Suc.IH [of "batch @ [order]" ?stats s1] obtain batch1 stats1 s2 where
      a: "drain n (batch @ [order], ?stats, s1) = Some (batch1, stats1, s2)" and
      b: "st_processed stats1 - int (length batch1)
            = st_processed ?stats - int (length (batch @ [order]))" and
      c: "st_enriched stats1 = st_enriched ?stats" "st_staged stats1 = st_staged ?stats"
         "st_errors stats1 = st_errors ?stats"
      by (elim exE conjE)
    have b': "st_processed stats1 - int (length batch1) = st_processed stats - int (length batch)"
      using b by simp
    have c': "st_enriched stats1 = st_enriched stats" "st_staged stats1 = st_staged stats"
      "st_errors stats1 = st_errors stats"
      using c by simp_all
    show ?thesis unfolding step using a b' c' by blast
  qed
qed

lemma enrich_loop_stats:
  "st_enriched (snd (enrich_loop jl tf s rows (acc, stats)))
      - int (length (fst (enrich_loop jl tf s rows (acc, stats))))
     = st_enriched stats - int (length acc) \<and>
   st_errors (snd (enrich_loop jl tf s rows (acc, stats)))
      + st_enriched (snd (enrich_loop jl tf s rows (acc, stats)))
     = st_errors stats + st_enriched stats + int (length rows) \<and>
   st_processed (snd (enrich_loop jl tf s rows (acc, stats))) = st_processed stats \<and>
   st_staged (snd (enrich_loop jl tf s rows (acc, stats))) = st_staged stats"
proof (induction rows arbitrary: acc stats)
  case Nil
  then show ?case by simp
next
  case (Cons row rows)
  show ?case
  proof (cases "enrich_row jl tf s row")
    case None
    then show ?thesis
      using Cons.IH [of acc "stats\<lparr>st_errors := st_errors stats + 1\<rparr>"] by simp
  next
    case (Some r)
    then show ?thesis
      using Cons.IH [of "acc @ [r]" "stats\<lparr>st_enriched := st_enriched stats + 1\<rparr>"] by simp
  qed
qed

text \<open>
  The accounting of \<^verbatim>\<open>process_batch\<close> in every branch. The call always returns. When
  the connection to Postgres cannot be opened the exception leaves the function; in every
  other case the statistics are returned, and staged plus errors equals processed, except
  when the COPY was committed and the publish then failed: there the rows are counted both
  as staged and as errors.
\<close>

lemma process_batch_accounting:
  "\<exists>r s1 db1.
     process_batch jl tf env n (s, db) = Some (r, s1, db1) \<and>
     (case r of
        Inl e \<Rightarrow> env = Connect_fails
      | Inr stats \<Rightarrow>
          st_staged stats + st_errors stats
            = st_processed stats + (if env = Publish_fails then st_staged stats else 0))"
proof -
  let ?stats0 = "\<lparr>st_processed = 0, st_enriched = 0, st_staged = 0, st_errors = 0\<rparr>"
  from drain_stats [of "nat n" "[]" ?stats0 s] obtain batch1 stats1 s1 where
    dr: "drain (nat n) ([], ?stats0, s) = Some (batch1, stats1, s1)" and
    p1: "st_processed stats1 - int (length batch1)
           = st_processed ?stats0 - int (length ([] :: order list))" and
    o1: "st_enriched stats1 = st_enriched ?stats0" "st_staged stats1 = st_staged ?stats0"
        "st_errors stats1 = st_errors ?stats0"
    by (elim exE conjE)
  let ?s2 = "snd (decrement backpressure ''ingestion'' (int (length batch1)) s1)"
  let ?r = "enrich_loop jl tf ?s2 batch1 ([], stats1)"
  have f1: "st_processed stats1 = int (length batch1)" "st_staged stats1 = 0"
    "st_errors stats1 = 0" "st_enriched stats1 = 0"
    using p1 o1 by simp_all
  have f2: "st_processed (snd ?r) = int (length batch1)" "st_staged (snd ?r) = 0"
    "st_enriched (snd ?r) = int (length (fst ?r))"
    "st_errors (snd ?r) + int (length (fst ?r)) = int (length batch1)"
    using enrich_loop_stats [of jl tf ?s2 batch1 "[]" stats1] f1 by simp_all
  have pb: "process_batch jl tf env n (s, db) =
      Some (if batch1 = [] then (Inr stats1, s1, db)
            else if fst ?r = [] then (Inr (snd ?r), ?s2, db)
            else (case env of
                    Connect_fails \<Rightarrow> (Inl Connection_error, ?s2, db)
                  | Copy_fails \<Rightarrow>
                      (Inr (snd ?r\<lparr>st_errors := st_errors (snd ?r) + int (length (fst ?r))\<rparr>),
                       ?s2, db)
                  | Publish_fails \<Rightarrow>
                      (Inr (snd ?r\<lparr>st_staged := int (length (fst ?r)),
                                   st_errors := st_errors (snd ?r) + int (length (fst ?r))\<rparr>),
                       ?s2, snd (bulk_insert (fst ?r) db))
                  | All_succeed \<Rightarrow>
                      (Inr (snd ?r\<lparr>st_staged := int (length (fst ?r))\<rparr>),
                       publish ''pipeline:events''
                         \<lparr>event = ''batch_staged'', count = int (length (fst ?r)),
                          timestamp = clock ?s2\<rparr> ?s2,
                       snd (bulk_insert (fst ?r) db))))"
    by (cases env) (simp_all add: process_batch_def dr split_def Let_def bulk_insert_def)
  show ?thesis
  proof (cases "batch1 = []")
    case True
    then show ?thesis using f1 by (simp add: pb)
  next
    case False
    note ne = this
    show ?thesis
    proof (cases "fst ?r = []")
      case True
      then show ?thesis using ne f2 by (simp add: pb)
    next
      case False
      then show ?thesis using ne f2 pb by (cases env) simp_all
    qed
  qed
qed

lemma queued_store_queue: "list_keys queued_store ingestion_queue = [sample_order]"
  by code_simp

lemma queued_store_cache:
  "hash_keys queued_store lookup_cache =
     [(''product:PROD-001'', product_text), (''currency:USD'', rate_text),
      (''zipcode:10001'', zip_text)]"
  by code_simp

lemma queued_store_no_deadline: "deadline queued_store lookup_cache = None"
  by code_simp

lemma pop_single:
  assumes "list_keys s q = [x]" "deadline s k = None"
  shows "\<exists>s1. pop q t s = Some (Some x, s1) \<and> list_keys s1 q = [] \<and>
              hash_keys s1 = hash_keys s \<and> deadline s1 k = None"
  using assms
  by (simp add: pop_def redis_brpop_def redis_decr_def redis_decrby_def Let_def)

lemma pop_empty:
  "list_keys s q = [] \<Longrightarrow> pop q 1 s = Some (None, advance 1 s)"
  by (simp add: pop_def redis_brpop_def)

lemma advance_hash_no_deadline:
  "deadline s k = None \<Longrightarrow> hash_keys (advance d s) k = hash_keys s k"
  by (simp add: advance_def purge_def expired_def)

lemma decrement_hash: "hash_keys (snd (decrement ns q n s)) = hash_keys s"
  by (simp add: decrement_def redis_decrby_def Let_def)

lemma drain_single:
  assumes "list_keys s ingestion_queue = [x]" "deadline s k = None"
  shows "\<exists>s1. drain (Suc (Suc n)) ([], stats, s)
                = Some ([x], stats\<lparr>st_processed := st_processed stats + 1\<rparr>, s1) \<and>
              hash_keys s1 k = hash_keys s k"
proof -
  from pop_single [OF assms, of 1] obtain sa where
    p: "pop ingestion_queue 1 s = Some (Some x, sa)" and
    e: "list_keys sa ingestion_queue = []" and
    h: "hash_keys sa = hash_keys s" and
    d: "deadline sa k = None"
    by (elim exE conjE)
  have "drain (Suc (Suc n)) ([], stats, s)
      = Some ([x], stats\<lparr>st_processed := st_processed stats + 1\<rparr>, advance 1 sa)"
    using p pop_empty [OF e] by simp
  moreover have "hash_keys (advance 1 sa) k = hash_keys s k"
    using advance_hash_no_deadline [OF d, of 1] h by simp
  ultimately show ?thesis by blast
qed

lemma enrich_sample_order:
  assumes "hash_keys s lookup_cache =
      [(''product:PROD-001'', product_text), (''currency:USD'', rate_text),
       (''zipcode:10001'', zip_text)]"
    and "jl product_text = Truthy" "jl zip_text = Truthy" "tf rate_text = Truthy"
  shows "enrich_row jl tf s sample_order = Some sample_order"
proof -
  have ne: "product_text \<noteq> []" "zip_text \<noteq> []" "rate_text \<noteq> []"
    by (simp_all add: product_text_def zip_text_def rate_text_def)
  have g: "get lookup_cache (''product:'' @ product_id sample_order) s = Some product_text"
    "get lookup_cache (''currency:'' @ currency sample_order) s = Some rate_text"
    "get lookup_cache (''zipcode:'' @ zip_code sample_order) s = Some zip_text"
    using ne by (simp_all add: get_def redis_hget_def assms(1) sample_order_def)
  show ?thesis
    unfolding enrich_row_def get_json_def
    by (simp only: g assms(2-4) option.case py_value.case simp_thms if_False)
qed

text \<open>
  The run of \<^verbatim>\<open>process_batch\<close> on the queued sample order when the COPY is committed
  and the publish fails, for every \<^verbatim>\<open>json.loads\<close> and \<^verbatim>\<open>float\<close> that take the three
  texts of the cache to values that are true.
\<close>

lemma process_batch_publish_fails:
  assumes "jl product_text = Truthy" "jl zip_text = Truthy" "tf rate_text = Truthy"
  shows "map_option fst
           (process_batch jl tf Publish_fails 5000 (queued_store, empty_postgres))
           = Some (Inr \<lparr>st_processed = 1, st_enriched = 1, st_staged = 1, st_errors = 1\<rparr>) \<and>
         map_option (orders_staging \<circ> snd \<circ> snd)
           (process_batch jl tf Publish_fails 5000 (queued_store, empty_postgres))
           = Some [sample_order]"
proof -
  let ?stats0 = "\<lparr>st_processed = 0, st_enriched = 0, st_staged = 0, st_errors = 0\<rparr>"
  have n: "nat 5000 = Suc (Suc 4998)" by simp
  from drain_single [OF queued_store_queue queued_store_no_deadline, of 4998 ?stats0]
  obtain s1 where
    dr: "drain (nat 5000) ([], ?stats0, queued_store)
           = Some ([sample_order], ?stats0\<lparr>st_processed := st_processed ?stats0 + 1\<rparr>, s1)" and
    h: "hash_keys s1 lookup_cache = hash_keys queued_store lookup_cache"
    unfolding n by (elim exE conjE)
  let ?s2 = "snd (decrement backpressure ''ingestion'' (int (length [sample_order])) s1)"
  have "hash_keys ?s2 lookup_cache =
      [(''product:PROD-001'', product_text), (''currency:USD'', rate_text),
       (''zipcode:10001'', zip_text)]"
    by (simp only: decrement_hash h queued_store_cache)
  then have en: "enrich_row jl tf ?s2 sample_order = Some sample_order"
    using assms by (rule enrich_sample_order)
  have dr': "drain 5000 ([], ?stats0, queued_store)
      = Some ([sample_order], ?stats0\<lparr>st_processed := st_processed ?stats0 + 1\<rparr>, s1)"
    using dr by simp
  show ?thesis
    using en
    by (simp add: process_batch_def dr' Let_def split_def bulk_insert_def empty_postgres_def)
qed

text \<open>
  C3: staged plus errors is to equal processed for every batch. It does not when the
  bulk insert succeeds and the publish of the \<^verbatim>\<open>batch_staged\<close> event then fails: the
  handler written for a failed bulk insert catches the exception of the publish as well,
  after \<^verbatim>\<open>staged\<close> has been set, and adds the rows to the errors. The cache holds the
  JSON objects of the product and of the zip code and the rate of the currency. One order
  is drained and enriched, the statistics say one staged and one error, and the row is in
  the staging table.
\<close>

theorem staged_row_counted_as_error:
  "map_option fst
     (process_batch sample_json_loads sample_float Publish_fails 5000
        (queued_store, empty_postgres))
     = Some (Inr \<lparr>st_processed = 1, st_enriched = 1, st_staged = 1, st_errors = 1\<rparr>) \<and>
   map_option (orders_staging \<circ> snd \<circ> snd)
     (process_batch sample_json_loads sample_float Publish_fails 5000
        (queued_store, empty_postgres))
     = Some [sample_order]"
proof -
  have "sample_json_loads product_text = Truthy" "sample_json_loads zip_text = Truthy"
    "sample_float rate_text = Truthy"
    by (simp_all add: sample_json_loads_def sample_float_def)
  then show ?thesis by (rule process_batch_publish_fails)
qed

end
